theory Spec2Isabelle
  imports Main "HOL-Library.FSet"
begin

section \<open>Lambda terms (lambda_calculus.py)\<close>

text \<open>
  The three dataclasses \<open>Var(name)\<close>, \<open>Abs(var, body)\<close> and \<open>App(func, arg)\<close>.
  Their \<open>__eq__\<close> methods compare the class and the fields, which is the equality
  of the datatype.
\<close>

datatype lterm = Var string | Abs string lterm | App lterm lterm

text \<open>
  \<open>free_vars\<close> returns a Python set, which is finite: a finite set of names.
\<close>

fun free_vars :: "lterm \<Rightarrow> string fset" where
  "free_vars (Var name) = {|name|}"
| "free_vars (Abs var body) = free_vars body |-| {|var|}"
| "free_vars (App func arg) = free_vars func |\<union>| free_vars arg"

subsection \<open>Fresh names\<close>

text \<open>
  \<open>str(counter)\<close> for a counter that starts at 1 and only grows: the decimal digits,
  most significant first.
\<close>

definition digit_char :: "nat \<Rightarrow> char" where
  "digit_char d = char_of (48 + d)"

fun str_nat :: "nat \<Rightarrow> string" where
  "str_nat n = (if n < 10 then [digit_char n] else str_nat (n div 10) @ [digit_char (n mod 10)])"

declare str_nat.simps [simp del]

text \<open>The f-string \<open>f"{base}_{counter}"\<close>.\<close>

definition candidate :: "string \<Rightarrow> nat \<Rightarrow> string" where
  "candidate base counter = base @ ''_'' @ str_nat counter"

text \<open>
  Reading a decimal string back; used only to show that distinct counters give
  distinct candidates.
\<close>

definition digit_val :: "char \<Rightarrow> nat" where
  "digit_val c = of_char c - 48"

definition nat_of_str :: "string \<Rightarrow> nat" where
  "nat_of_str s = foldl (\<lambda>a c. 10 * a + digit_val c) 0 s"

text \<open>
  The names of the avoid set that the loop of \<open>_fresh_var\<close> can still run into
  from \<open>counter\<close> on.
\<close>

definition pending :: "string \<Rightarrow> string fset \<Rightarrow> nat \<Rightarrow> string fset" where
  "pending base avoid counter = ffilter (\<lambda>s. \<exists>n\<ge>counter. s = candidate base n) avoid"

text \<open>
  \<open>Abs._fresh_var\<close>: the \<open>while\<close> loop over \<open>counter\<close>, which starts at 1. It ends
  because the avoid set is finite and every candidate differs from the ones before.
\<close>

function fresh_loop :: "string \<Rightarrow> string fset \<Rightarrow> nat \<Rightarrow> string" where
  "fresh_loop base avoid counter =
     (if candidate base counter |\<in>| avoid then fresh_loop base avoid (counter + 1)
      else candidate base counter)"
  by pat_completeness auto
termination
proof (relation "measure (\<lambda>(base, avoid, counter). fcard (pending base avoid counter))")
  show "wf (measure (\<lambda>(base, avoid, counter). fcard (pending base avoid counter)))"
    by simp
next
  fix base :: string and avoid :: "string fset" and counter :: nat
  assume hit: "candidate base counter |\<in>| avoid"
  have readback: "nat_of_str (str_nat n) = n" for n
  proof (induction n rule: str_nat.induct)
    case (1 n)
    show ?case
    proof (cases "n < 10")
      case True
      then show ?thesis
        by (subst str_nat.simps) (simp add: nat_of_str_def digit_val_def digit_char_def)
    next
      case False
      with 1 have "nat_of_str (str_nat (n div 10)) = n div 10" by simp
      with False show ?thesis
        by (subst str_nat.simps) (simp add: nat_of_str_def digit_val_def digit_char_def)
    qed
  qed
  have inj: "m = n" if "candidate base m = candidate base n" for m n
  proof -
    from that have "str_nat m = str_nat n" by (simp add: candidate_def)
    then have "nat_of_str (str_nat m) = nat_of_str (str_nat n)" by simp
    then show ?thesis by (simp only: readback)
  qed
  have sub: "pending base avoid (Suc counter) |\<subseteq>| pending base avoid counter"
  proof
    fix s
    assume "s |\<in>| pending base avoid (Suc counter)"
    then obtain n where "s |\<in>| avoid" "Suc counter \<le> n" "s = candidate base n"
      by (auto simp: pending_def)
    then have "s |\<in>| avoid \<and> (\<exists>n\<ge>counter. s = candidate base n)"
      using Suc_leD by blast
    then show "s |\<in>| pending base avoid counter"
      by (simp add: pending_def)
  qed
  have inn: "candidate base counter |\<in>| pending base avoid counter"
    using hit by (auto simp: pending_def)
  have out: "candidate base counter |\<notin>| pending base avoid (Suc counter)"
    by (auto simp: pending_def dest: inj)
  from sub inn out
  have "pending base avoid (Suc counter) |\<subset>| pending base avoid counter"
    by blast
  then have "fcard (pending base avoid (Suc counter)) < fcard (pending base avoid counter)"
    by (rule pfsubset_fcard_mono)
  then show "((base, avoid, counter + 1), (base, avoid, counter))
      \<in> measure (\<lambda>(base, avoid, counter). fcard (pending base avoid counter))"
    by simp
qed

declare fresh_loop.simps [simp del]

definition fresh_var :: "string \<Rightarrow> string fset \<Rightarrow> string" where
  "fresh_var base avoid = fresh_loop base avoid 1"

subsection \<open>Substitution\<close>

text \<open>
  The three \<open>substitute\<close> methods, by case on the receiver. In the renaming branch of
  \<open>Abs.substitute\<close> the second call works on the result of the first, so the
  recursion is nested.
\<close>

function substitute :: "lterm \<Rightarrow> string \<Rightarrow> lterm \<Rightarrow> lterm" where
  "substitute (Var name) var t = (if name = var then t else Var name)"
| "substitute (Abs v body) var t =
     (if v = var then Abs v body
      else if v |\<notin>| free_vars t then Abs v (substitute body var t)
      else
        let fresh = fresh_var v (free_vars t |\<union>| free_vars body |\<union>| {|var|});
            renamed_body = substitute body v (Var fresh)
        in Abs fresh (substitute renamed_body var t))"
| "substitute (App func arg) var t = App (substitute func var t) (substitute arg var t)"
  by pat_completeness auto

termination
proof -
  have keep: "size (substitute t x r) = size t"
    if "substitute_dom (t, x, r)" and "r = Var y" for t x r y
    using that
  proof (induction t x r arbitrary: y rule: substitute.pinduct)
    case (1 name var t)
    then show ?case by (simp add: substitute.psimps)
  next
    case (2 v body var t)
    then show ?case by (simp add: substitute.psimps Let_def)
  next
    case (3 func arg var t)
    then show ?case by (simp add: substitute.psimps)
  qed
  have keep_Var: "size (substitute t x (Var y)) = size t"
    if "substitute_dom (t, x, Var y)" for t x y
    using that by (rule keep) simp
  show ?thesis
    by (relation "measure (\<lambda>(t, x, r). size t)") (simp_all add: keep_Var)
qed

declare substitute.simps(2) [simp del]

section \<open>Analytical operations\<close>

text \<open>
  \<open>beta_reduce\<close> returns \<open>None\<close> or a term. The \<open>isinstance\<close> chain is the case
  distinction on the term; inside the \<open>App\<close> branch the test on \<open>term.func\<close> comes
  before any recursive call.
\<close>

fun beta_reduce :: "lterm \<Rightarrow> lterm option" where
  "beta_reduce (Var name) = None"
| "beta_reduce (Abs v body) =
     (case beta_reduce body of
        Some reduced_body \<Rightarrow> Some (Abs v reduced_body)
      | None \<Rightarrow> None)"
| "beta_reduce (App func arg) =
     (case func of
        Abs v body \<Rightarrow> Some (substitute body v arg)
      | _ \<Rightarrow>
        (case beta_reduce func of
           Some reduced_func \<Rightarrow> Some (App reduced_func arg)
         | None \<Rightarrow>
           (case beta_reduce arg of
              Some reduced_arg \<Rightarrow> Some (App func reduced_arg)
            | None \<Rightarrow> None)))"

text \<open>
  \<open>alpha_convert\<close> reads \<open>term.body\<close> and \<open>term.var\<close> with no test of the class.
  \<open>Var\<close> has the single field \<open>name\<close> and \<open>App\<close> the fields \<open>func\<close> and \<open>arg\<close>, so
  on them the read of \<open>term.body\<close> raises \<open>AttributeError\<close> before anything is built.
  \<open>RecursionError\<close> is what the interpreter raises when a call would nest deeper than
  its recursion limit; see the section on recursion depth.
\<close>

datatype error = AttributeError | RecursionError

fun alpha_convert :: "lterm \<Rightarrow> string \<Rightarrow> error + lterm" where
  "alpha_convert (Abs v body) new_var = Inr (Abs new_var (substitute body v (Var new_var)))"
| "alpha_convert (Var name) new_var = Inl AttributeError"
| "alpha_convert (App func arg) new_var = Inl AttributeError"

definition eta_convert :: "lterm \<Rightarrow> lterm option" where
  "eta_convert t =
     (case t of
        Abs v body \<Rightarrow>
          (case body of
             App func arg \<Rightarrow>
               (case arg of
                  Var name \<Rightarrow>
                    if name = v then
                      (if v |\<notin>| free_vars func then Some func else None)
                    else None
                | _ \<Rightarrow> None)
           | _ \<Rightarrow> None)
      | _ \<Rightarrow> None)"

text \<open>
  \<open>normalize\<close>: the \<open>while steps < max_steps\<close> loop, with Python's unbounded
  integers for both counters.
\<close>

function normalize_loop :: "int \<Rightarrow> lterm \<Rightarrow> int \<Rightarrow> lterm" where
  "normalize_loop steps current max_steps =
     (if steps < max_steps then
        (case beta_reduce current of
           None \<Rightarrow> current
         | Some reduced \<Rightarrow> normalize_loop (steps + 1) reduced max_steps)
      else current)"
  by pat_completeness auto
termination
  by (relation "measure (\<lambda>(steps, current, max_steps). nat (max_steps - steps))") simp_all

declare normalize_loop.simps [simp del]

definition normalize :: "lterm \<Rightarrow> int \<Rightarrow> lterm" where
  "normalize t max_steps = normalize_loop 0 t max_steps"

definition is_normal_form :: "lterm \<Rightarrow> bool" where
  "is_normal_form t = (beta_reduce t = None)"

section \<open>Church encodings\<close>

text \<open>\<open>church_numeral\<close>: the \<open>for _ in range(n)\<close> loop wraps the body \<open>n\<close> times.\<close>

fun church_body :: "nat \<Rightarrow> lterm \<Rightarrow> lterm" where
  "church_body 0 body = body"
| "church_body (Suc k) body = church_body k (App (Var ''f'') body)"

definition church_numeral :: "int \<Rightarrow> lterm" where
  "church_numeral n = Abs ''f'' (Abs ''x'' (church_body (nat n) (Var ''x'')))"

definition church_succ :: lterm where
  "church_succ = Abs ''n'' (Abs ''f'' (Abs ''x''
     (App (Var ''f'') (App (App (Var ''n'') (Var ''f'')) (Var ''x'')))))"

definition church_add :: lterm where
  "church_add = Abs ''m'' (Abs ''n'' (Abs ''f'' (Abs ''x''
     (App (App (Var ''m'') (Var ''f''))
          (App (App (Var ''n'') (Var ''f'')) (Var ''x''))))))"

definition church_mult :: lterm where
  "church_mult = Abs ''m'' (Abs ''n'' (Abs ''f''
     (App (Var ''m'') (App (Var ''n'') (Var ''f'')))))"


section \<open>Helper functions for analysis\<close>


fun term_size :: "lterm \<Rightarrow> int" where
  "term_size (Var name) = 1"
| "term_size (Abs v body) = 1 + term_size body"
| "term_size (App func arg) = 1 + term_size func + term_size arg"

text \<open>
  \<open>reduction_steps\<close>: \<open>for _ in range(max_steps)\<close> runs \<open>max_steps\<close> times, and not
  at all when \<open>max_steps\<close> is negative; \<open>i\<close> counts the iterations done.
\<close>

function reduction_loop :: "int \<Rightarrow> lterm list \<Rightarrow> lterm \<Rightarrow> int \<Rightarrow> lterm list" where
  "reduction_loop i steps current max_steps =
     (if i < max_steps then
        (case beta_reduce current of
           None \<Rightarrow> steps
         | Some reduced \<Rightarrow> reduction_loop (i + 1) (steps @ [reduced]) reduced max_steps)
      else steps)"
  by pat_completeness auto
termination
  by (relation "measure (\<lambda>(i, steps, current, max_steps). nat (max_steps - i))") simp_all

declare reduction_loop.simps [simp del]

definition reduction_steps :: "lterm \<Rightarrow> int \<Rightarrow> lterm list" where
  "reduction_steps t max_steps = reduction_loop 0 [t] t max_steps"

section \<open>Recursion depth\<close>

text \<open>
  \<open>beta_reduce\<close>, \<open>substitute\<close> and \<open>free_vars\<close> are recursive, and the interpreter gives
  every call of a function or method a frame of its stack; a call made when no frame is
  left raises \<open>RecursionError\<close>, which no function of the module catches, so it
  leaves \<open>normalize\<close> and \<open>reduction_steps\<close> as well. The functions below are the same
  code with the number of frames still available as their first argument: a call takes
  one and hands the rest to the calls it makes. The frames of the caller do not come
  back, so the limit that counts is the one left when \<open>normalize\<close> is entered (the
  interpreter's default limit is 1000 frames for the whole stack).

  Only the calls written in the module are counted. The generated constructors also
  take a frame, but each of them runs right after a call that returned at the same
  depth, so it never is the first to fail; built-in operations are taken to need no
  frame. The depth counted here is therefore a lower bound of the interpreter's.

  \<open>Abs.substitute\<close> calls \<open>term.free_vars()\<close> a second time in the renaming branch,
  at the same depth and with the same result as the first; the model keeps one call.
\<close>

fun free_vars_lim :: "nat \<Rightarrow> lterm \<Rightarrow> error + string fset" where
  "free_vars_lim 0 t = Inl RecursionError"
| "free_vars_lim (Suc d) (Var name) = Inr {|name|}"
| "free_vars_lim (Suc d) (Abs v body) =
     (case free_vars_lim d body of
        Inl e \<Rightarrow> Inl e
      | Inr fb \<Rightarrow> Inr (fb |-| {|v|}))"
| "free_vars_lim (Suc d) (App func arg) =
     (case free_vars_lim d func of
        Inl e \<Rightarrow> Inl e
      | Inr ff \<Rightarrow>
        (case free_vars_lim d arg of
           Inl e \<Rightarrow> Inl e
         | Inr fa \<Rightarrow> Inr (ff |\<union>| fa)))"

text \<open>\<open>_fresh_var\<close> is a loop: one frame.\<close>

fun fresh_var_lim :: "nat \<Rightarrow> string \<Rightarrow> string fset \<Rightarrow> error + string" where
  "fresh_var_lim 0 base avoid = Inl RecursionError"
| "fresh_var_lim (Suc d) base avoid = Inr (fresh_var base avoid)"

fun substitute_lim :: "nat \<Rightarrow> lterm \<Rightarrow> string \<Rightarrow> lterm \<Rightarrow> error + lterm" where
  "substitute_lim 0 s var t = Inl RecursionError"
| "substitute_lim (Suc d) (Var name) var t = Inr (if name = var then t else Var name)"
| "substitute_lim (Suc d) (Abs v body) var t =
     (if v = var then Inr (Abs v body)
      else
        (case free_vars_lim d t of
           Inl e \<Rightarrow> Inl e
         | Inr ft \<Rightarrow>
           if v |\<notin>| ft then
             (case substitute_lim d body var t of
                Inl e \<Rightarrow> Inl e
              | Inr new_body \<Rightarrow> Inr (Abs v new_body))
           else
             (case free_vars_lim d body of
                Inl e \<Rightarrow> Inl e
              | Inr fb \<Rightarrow>
                (case fresh_var_lim d v (ft |\<union>| fb |\<union>| {|var|}) of
                   Inl e \<Rightarrow> Inl e
                 | Inr fresh \<Rightarrow>
                   (case substitute_lim d body v (Var fresh) of
                      Inl e \<Rightarrow> Inl e
                    | Inr renamed_body \<Rightarrow>
                      (case substitute_lim d renamed_body var t of
                         Inl e \<Rightarrow> Inl e
                       | Inr new_body \<Rightarrow> Inr (Abs fresh new_body)))))))"
| "substitute_lim (Suc d) (App func arg) var t =
     (case substitute_lim d func var t of
        Inl e \<Rightarrow> Inl e
      | Inr new_func \<Rightarrow>
        (case substitute_lim d arg var t of
           Inl e \<Rightarrow> Inl e
         | Inr new_arg \<Rightarrow> Inr (App new_func new_arg)))"

fun beta_reduce_lim :: "nat \<Rightarrow> lterm \<Rightarrow> error + lterm option" where
  "beta_reduce_lim 0 t = Inl RecursionError"
| "beta_reduce_lim (Suc d) (Var name) = Inr None"
| "beta_reduce_lim (Suc d) (Abs v body) =
     (case beta_reduce_lim d body of
        Inl e \<Rightarrow> Inl e
      | Inr None \<Rightarrow> Inr None
      | Inr (Some reduced_body) \<Rightarrow> Inr (Some (Abs v reduced_body)))"
| "beta_reduce_lim (Suc d) (App func arg) =
     (case func of
        Abs v body \<Rightarrow>
          (case substitute_lim d body v arg of
             Inl e \<Rightarrow> Inl e
           | Inr r \<Rightarrow> Inr (Some r))
      | _ \<Rightarrow>
        (case beta_reduce_lim d func of
           Inl e \<Rightarrow> Inl e
         | Inr (Some reduced_func) \<Rightarrow> Inr (Some (App reduced_func arg))
         | Inr None \<Rightarrow>
           (case beta_reduce_lim d arg of
              Inl e \<Rightarrow> Inl e
            | Inr (Some reduced_arg) \<Rightarrow> Inr (Some (App func reduced_arg))
            | Inr None \<Rightarrow> Inr None)))"







section \<open>Fixtures and proof-only functions\<close>



text \<open>
  The sequence of reducts of a term over at most \<open>n\<close> steps, by recursion on \<open>n\<close>.
  It is not part of the program: both loops are compared with it in the proofs.
\<close>

fun trace :: "lterm \<Rightarrow> nat \<Rightarrow> lterm list" where
  "trace t 0 = [t]"
| "trace t (Suc n) = (case beta_reduce t of None \<Rightarrow> [t] | Some r \<Rightarrow> t # trace r n)"




section \<open>Fresh names\<close>

lemma fresh_loop_least:
  "\<exists>k\<ge>c. fresh_loop base avoid c = candidate base k \<and> candidate base k |\<notin>| avoid \<and>
     (\<forall>j. c \<le> j \<and> j < k \<longrightarrow> candidate base j |\<in>| avoid)"
proof (induction base avoid c rule: fresh_loop.induct)
  case (1 base avoid counter)
  show ?case
  proof (cases "candidate base counter |\<in>| avoid")
    case False
    then have "fresh_loop base avoid counter = candidate base counter"
      by (subst fresh_loop.simps) simp
    with False show ?thesis by auto
  next
    case True
    with 1 obtain k where k: "counter + 1 \<le> k"
      "fresh_loop base avoid (counter + 1) = candidate base k"
      "candidate base k |\<notin>| avoid"
      "\<forall>j. counter + 1 \<le> j \<and> j < k \<longrightarrow> candidate base j |\<in>| avoid"
      by blast
    from True have eq: "fresh_loop base avoid counter = fresh_loop base avoid (counter + 1)"
      by (subst fresh_loop.simps) simp
    have "\<forall>j. counter \<le> j \<and> j < k \<longrightarrow> candidate base j |\<in>| avoid"
    proof (intro allI impI)
      fix j assume j: "counter \<le> j \<and> j < k"
      show "candidate base j |\<in>| avoid"
      proof (cases "j = counter")
        case True with \<open>candidate base counter |\<in>| avoid\<close> show ?thesis by simp
      next
        case False with j k(4) show ?thesis by simp
      qed
    qed
    with k eq show ?thesis
      by (intro exI [of _ k]) simp
  qed
qed

lemma fresh_var_least:
  "\<exists>k\<ge>1. fresh_var base avoid = candidate base k \<and> candidate base k |\<notin>| avoid \<and>
     (\<forall>j. 1 \<le> j \<and> j < k \<longrightarrow> candidate base j |\<in>| avoid)"
  unfolding fresh_var_def by (rule fresh_loop_least)

lemma fresh_var_notin: "fresh_var base avoid |\<notin>| avoid"
  using fresh_var_least [of base avoid] by auto

section \<open>Free variables of a substitution\<close>

lemma free_vars_substitute:
  "free_vars (substitute t x r) =
     (free_vars t |-| {|x|}) |\<union>| (if x |\<in>| free_vars t then free_vars r else {||})"
proof (induction t x r rule: substitute.induct)
  case (1 name var t)
  then show ?case by auto
next
  case (2 v body var t)
  show ?case
  proof (cases "v = var")
    case True
    then show ?thesis by (auto simp: substitute.simps)
  next
    case neq: False
    show ?thesis
    proof (cases "v |\<notin>| free_vars t")
      case True
      with neq 2(1) show ?thesis by (auto simp: substitute.simps)
    next
      case False
      define fresh where "fresh = fresh_var v (free_vars t |\<union>| free_vars body |\<union>| {|var|})"
      define renamed where "renamed = substitute body v (Var fresh)"
      have fr: "fresh |\<notin>| free_vars t" "fresh |\<notin>| free_vars body" "fresh \<noteq> var"
        using fresh_var_notin [of v "free_vars t |\<union>| free_vars body |\<union>| {|var|}"]
        by (auto simp: fresh_def)
      have eq: "substitute (Abs v body) var t = Abs fresh (substitute renamed var t)"
        using neq False by (simp add: substitute.simps fresh_def renamed_def Let_def)
      have r1: "free_vars renamed =
          (free_vars body |-| {|v|}) |\<union>| (if v |\<in>| free_vars body then {|fresh|} else {||})"
        using 2(2) [OF neq False fresh_def] by (simp add: renamed_def)
      have r2: "free_vars (substitute renamed var t) =
          (free_vars renamed |-| {|var|})
            |\<union>| (if var |\<in>| free_vars renamed then free_vars t else {||})"
        using 2(3) [OF neq False fresh_def renamed_def] .
      show ?thesis
        unfolding eq using fr neq by (auto simp: r1 r2 split: if_splits)
    qed
  qed
next
  case (3 func arg var t)
  then show ?case by auto
qed

section \<open>The two loops and the sequence of reducts\<close>

lemma trace_nonempty: "trace t n \<noteq> []"
  by (cases n) (auto split: option.splits)

lemma hd_trace: "hd (trace t n) = t"
  by (cases n) (auto split: option.splits)

lemma length_trace: "length (trace t n) \<le> Suc n"
  by (induction n arbitrary: t) (auto split: option.splits)

lemma cons_tl_trace: "t # tl (trace t n) = trace t n"
  by (cases n) (auto split: option.splits)

lemma reduction_loop_trace:
  "reduction_loop i steps current max_steps = steps @ tl (trace current (nat (max_steps - i)))"
proof (induction i steps current max_steps rule: reduction_loop.induct)
  case (1 i steps current max_steps)
  show ?case
  proof (cases "i < max_steps")
    case False
    then show ?thesis by (subst reduction_loop.simps) simp
  next
    case True
    then have n: "nat (max_steps - i) = Suc (nat (max_steps - (i + 1)))" by simp
    show ?thesis
    proof (cases "beta_reduce current")
      case None
      with True show ?thesis by (subst reduction_loop.simps) (simp add: n)
    next
      case (Some reduced)
      with True 1 show ?thesis
        by (subst reduction_loop.simps) (simp add: n cons_tl_trace)
    qed
  qed
qed

lemma normalize_loop_trace:
  "normalize_loop steps current max_steps = last (trace current (nat (max_steps - steps)))"
proof (induction steps current max_steps rule: normalize_loop.induct)
  case (1 steps current max_steps)
  show ?case
  proof (cases "steps < max_steps")
    case False
    then show ?thesis by (subst normalize_loop.simps) simp
  next
    case True
    then have n: "nat (max_steps - steps) = Suc (nat (max_steps - (steps + 1)))" by simp
    show ?thesis
    proof (cases "beta_reduce current")
      case None
      with True show ?thesis by (subst normalize_loop.simps) (simp add: n)
    next
      case (Some reduced)
      with True 1 show ?thesis
        by (subst normalize_loop.simps) (simp add: n trace_nonempty)
    qed
  qed
qed

lemma reduction_steps_trace: "reduction_steps t max_steps = trace t (nat max_steps)"
proof -
  have "[t] @ tl (trace t (nat max_steps)) = trace t (nat max_steps)"
    by (simp add: cons_tl_trace)
  then show ?thesis by (simp add: reduction_steps_def reduction_loop_trace)
qed

lemma normalize_trace: "normalize t max_steps = last (trace t (nat max_steps))"
  by (simp add: normalize_def normalize_loop_trace)




section \<open>The code under a recursion limit\<close>

text \<open>
  With any number of frames a call either raises \<open>RecursionError\<close> or returns what
  the function returns when depth is no concern.
\<close>

lemma free_vars_lim_cases:
  "free_vars_lim d t = Inl RecursionError \<or> free_vars_lim d t = Inr (free_vars t)"
proof (induction d arbitrary: t)
  case 0
  show ?case by simp
next
  case (Suc d)
  show ?case
  proof (cases t)
    case (Var name)
    then show ?thesis by simp
  next
    case (Abs v body)
    with Suc [of body] show ?thesis by auto
  next
    case (App func arg)
    with Suc [of func] Suc [of arg] show ?thesis by auto
  qed
qed

lemma fresh_var_lim_cases:
  "fresh_var_lim d base avoid = Inl RecursionError \<or>
   fresh_var_lim d base avoid = Inr (fresh_var base avoid)"
  by (cases d) simp_all

lemma substitute_lim_cases:
  "substitute_lim d s var t = Inl RecursionError \<or>
   substitute_lim d s var t = Inr (substitute s var t)"
proof (induction d arbitrary: s var t)
  case 0
  show ?case by simp
next
  case (Suc d)
  show ?case
  proof (cases s)
    case (Var name)
    then show ?thesis by simp
  next
    case (App func arg)
    with Suc [of func var t] Suc [of arg var t] show ?thesis by auto
  next
    case (Abs v body)
    show ?thesis
    proof (cases "v = var")
      case True
      with Abs show ?thesis by (simp add: substitute.simps)
    next
      case neq: False
      from free_vars_lim_cases [of d t] show ?thesis
      proof
        assume "free_vars_lim d t = Inl RecursionError"
        with Abs neq show ?thesis by simp
      next
        assume ft: "free_vars_lim d t = Inr (free_vars t)"
        show ?thesis
        proof (cases "v |\<notin>| free_vars t")
          case True
          with Abs neq ft Suc [of body var t] show ?thesis
            by (auto simp: substitute.simps)
        next
          case False
          define fresh where "fresh = fresh_var v (free_vars t |\<union>| free_vars body |\<union>| {|var|})"
          define renamed where "renamed = substitute body v (Var fresh)"
          have total: "substitute (Abs v body) var t = Abs fresh (substitute renamed var t)"
            using neq False by (simp add: substitute.simps fresh_def renamed_def Let_def)
          from free_vars_lim_cases [of d body] show ?thesis
          proof
            assume "free_vars_lim d body = Inl RecursionError"
            with Abs neq ft False show ?thesis by simp
          next
            assume fb: "free_vars_lim d body = Inr (free_vars body)"
            from fresh_var_lim_cases [of d v "free_vars t |\<union>| free_vars body |\<union>| {|var|}"]
            show ?thesis
            proof
              assume "fresh_var_lim d v (free_vars t |\<union>| free_vars body |\<union>| {|var|})
                  = Inl RecursionError"
              with Abs neq ft False fb show ?thesis by simp
            next
              assume "fresh_var_lim d v (free_vars t |\<union>| free_vars body |\<union>| {|var|})
                  = Inr (fresh_var v (free_vars t |\<union>| free_vars body |\<union>| {|var|}))"
              then have fr: "fresh_var_lim d v (free_vars t |\<union>| free_vars body |\<union>| {|var|})
                  = Inr fresh"
                by (simp add: fresh_def)
              from Suc [of body v "Var fresh"] show ?thesis
              proof
                assume "substitute_lim d body v (Var fresh) = Inl RecursionError"
                with Abs neq ft False fb fr show ?thesis by simp
              next
                assume "substitute_lim d body v (Var fresh) = Inr (substitute body v (Var fresh))"
                then have rn: "substitute_lim d body v (Var fresh) = Inr renamed"
                  by (simp add: renamed_def)
                from Suc [of renamed var t] show ?thesis
                proof
                  assume "substitute_lim d renamed var t = Inl RecursionError"
                  with Abs neq ft False fb fr rn show ?thesis by simp
                next
                  assume "substitute_lim d renamed var t = Inr (substitute renamed var t)"
                  with Abs neq ft False fb fr rn total show ?thesis by simp
                qed
              qed
            qed
          qed
        qed
      qed
    qed
  qed
qed

lemma beta_reduce_lim_cases:
  "beta_reduce_lim d t = Inl RecursionError \<or> beta_reduce_lim d t = Inr (beta_reduce t)"
proof (induction d arbitrary: t)
  case 0
  show ?case by simp
next
  case (Suc d)
  show ?case
  proof (cases t)
    case (Var name)
    then show ?thesis by simp
  next
    case (Abs v body)
    with Suc [of body] show ?thesis by (auto split: option.splits)
  next
    case (App func arg)
    show ?thesis
    proof (cases func)
      case (Abs v body)
      with App substitute_lim_cases [of d body v arg] show ?thesis by auto
    next
      case (Var name)
      with App Suc [of func] Suc [of arg] show ?thesis by (auto split: option.splits)
    next
      case inner: (App f a)
      with App Suc [of func] Suc [of arg] show ?thesis
        by (cases "beta_reduce func"; cases "beta_reduce arg") auto
    qed
  qed
qed

lemma beta_reduce_lim_returns:
  "beta_reduce_lim d t = Inr r \<Longrightarrow> r = beta_reduce t"
  using beta_reduce_lim_cases [of d t] by auto



subsection \<open>Omega stays within four frames\<close>



subsection \<open>The reducts of Y g grow by one level a step\<close>











section \<open>Claims\<close>

text \<open>
  C1. Renaming case of capture-avoiding substitution. For an abstraction whose bound name
  differs from the target and occurs free in the replacement, \<open>substitute\<close> renames the
  binder to \<open>bound_k\<close>, where \<open>k \<ge> 1\<close> is the smallest suffix for which \<open>bound_k\<close> is not
  in \<open>free_vars(replacement) \<union> free_vars(body) \<union> {target}\<close>; it substitutes the old
  bound name by the fresh variable in the body and then the target by the replacement in
  the renamed body. In particular, substituting \<open>x \<rightarrow> Var y\<close> into
  \<open>Abs y (App (Var x) (Var y))\<close> gives an abstraction whose bound variable is not \<open>y\<close>
  (it is \<open>y_1\<close>) and whose free variables are exactly \<open>{y}\<close>.
\<close>

theorem substitute_renaming_case:
  assumes "bound \<noteq> target" and "bound |\<in>| free_vars replacement"
  shows "(\<exists>k\<ge>1.
      candidate bound k |\<notin>| free_vars replacement |\<union>| free_vars body |\<union>| {|target|} \<and>
      (\<forall>j. 1 \<le> j \<and> j < k \<longrightarrow>
         candidate bound j |\<in>| free_vars replacement |\<union>| free_vars body |\<union>| {|target|}) \<and>
      substitute (Abs bound body) target replacement =
        Abs (candidate bound k)
          (substitute (substitute body bound (Var (candidate bound k))) target replacement))
    \<and> candidate ''y'' 1 = ''y_1''
    \<and> substitute (Abs ''y'' (App (Var ''x'') (Var ''y''))) ''x'' (Var ''y'')
        = Abs ''y_1'' (App (Var ''y'') (Var ''y_1''))
    \<and> ''y_1'' \<noteq> ''y''
    \<and> free_vars (substitute (Abs ''y'' (App (Var ''x'') (Var ''y''))) ''x'' (Var ''y''))
        = {|''y''|}"
proof -
  let ?avoid = "free_vars replacement |\<union>| free_vars body |\<union>| {|target|}"
  obtain k where k: "1 \<le> k" "fresh_var bound ?avoid = candidate bound k"
    "candidate bound k |\<notin>| ?avoid"
    "\<forall>j. 1 \<le> j \<and> j < k \<longrightarrow> candidate bound j |\<in>| ?avoid"
    using fresh_var_least [of bound ?avoid] by blast
  have "substitute (Abs bound body) target replacement =
      Abs (candidate bound k)
        (substitute (substitute body bound (Var (candidate bound k))) target replacement)"
    using assms k(2) by (simp add: substitute.simps Let_def)
  with k have general: "\<exists>k\<ge>1.
      candidate bound k |\<notin>| ?avoid \<and>
      (\<forall>j. 1 \<le> j \<and> j < k \<longrightarrow> candidate bound j |\<in>| ?avoid) \<and>
      substitute (Abs bound body) target replacement =
        Abs (candidate bound k)
          (substitute (substitute body bound (Var (candidate bound k))) target replacement)"
    by blast
  have name: "candidate ''y'' 1 = ''y_1''"
    by code_simp
  have ex: "substitute (Abs ''y'' (App (Var ''x'') (Var ''y''))) ''x'' (Var ''y'')
      = Abs ''y_1'' (App (Var ''y'') (Var ''y_1''))"
    by code_simp
  have fv: "free_vars (substitute (Abs ''y'' (App (Var ''x'') (Var ''y''))) ''x'' (Var ''y''))
      = {|''y''|}"
    unfolding ex by auto
  from general name ex fv show ?thesis by simp
qed

theorem substitute_renaming_case_witness:
  "''y'' \<noteq> ''x'' \<and> ''y'' |\<in>| free_vars (Var ''y'') \<and>
   (\<exists>k\<ge>1.
      candidate ''y'' k |\<notin>|
        free_vars (Var ''y'') |\<union>| free_vars (App (Var ''x'') (Var ''y'')) |\<union>| {|''x''|} \<and>
      substitute (Abs ''y'' (App (Var ''x'') (Var ''y''))) ''x'' (Var ''y'') =
        Abs (candidate ''y'' k)
          (substitute (substitute (App (Var ''x'') (Var ''y'')) ''y'' (Var (candidate ''y'' k)))
             ''x'' (Var ''y'')))"
proof -
  have h1: "''y'' \<noteq> ''x''" by simp
  have h2: "''y'' |\<in>| free_vars (Var ''y'')" by simp
  from substitute_renaming_case [OF h1 h2, of "App (Var ''x'') (Var ''y'')"]
  show ?thesis using h1 h2 by blast
qed

text \<open>
  C2. One step of beta reduction in leftmost-outermost order: none on a variable; on an
  application whose function is an abstraction, the substitution of the argument into
  the body, whatever redexes the subterms hold; on any other application, the reduced
  function if there is one, else the reduced argument if there is one, else none; on an
  abstraction, the reduced body under the same binder, or none.
\<close>

theorem beta_reduce_order:
  "beta_reduce (Var name) = None \<and>
   beta_reduce (App (Abs bound body) argument) = Some (substitute body bound argument) \<and>
   ((\<forall>b m. func \<noteq> Abs b m) \<longrightarrow>
      beta_reduce (App func argument) =
        (case beta_reduce func of
           Some reduced_function \<Rightarrow> Some (App reduced_function argument)
         | None \<Rightarrow>
           (case beta_reduce argument of
              Some reduced_argument \<Rightarrow> Some (App func reduced_argument)
            | None \<Rightarrow> None))) \<and>
   beta_reduce (Abs bound body) =
     (case beta_reduce body of
        Some reduced_body \<Rightarrow> Some (Abs bound reduced_body)
      | None \<Rightarrow> None)"
  by (cases func) auto

theorem beta_reduce_order_witness:
  "(\<forall>b m. Var ''f'' \<noteq> Abs b m) \<and>
   beta_reduce (App (Var ''f'') (App (Abs ''x'' (Var ''x'')) (Var ''y'')))
     = Some (App (Var ''f'') (Var ''y'')) \<and>
   beta_reduce (App (Abs ''x'' (App (Abs ''z'' (Var ''z'')) (Var ''x'')))
                    (App (Abs ''x'' (Var ''x'')) (Var ''y'')))
     = Some (App (Abs ''z'' (Var ''z'')) (App (Abs ''x'' (Var ''x'')) (Var ''y'')))"
  using beta_reduce_order [of "''a''" "''x''" "App (Abs ''z'' (Var ''z'')) (Var ''x'')"
      "App (Abs ''x'' (Var ''x'')) (Var ''y'')" "Var ''f''"]
  by (simp add: substitute.simps)




text \<open>
  C4. Idempotence on normal forms. If \<open>is_normal_form(t)\<close> then \<open>beta_reduce(t)\<close> reports
  no reduction and \<open>normalize(t, k)\<close> is \<open>t\<close>, for every step bound \<open>k\<close> (negative ones
  included); and \<open>is_normal_form(t)\<close> holds exactly when \<open>beta_reduce(t)\<close> reports no
  reduction.
\<close>

theorem normal_form_idempotent:
  "(is_normal_form t \<longrightarrow> beta_reduce t = None \<and> normalize t k = t) \<and>
   (is_normal_form t \<longleftrightarrow> beta_reduce t = None)"
proof -
  have "normalize t k = t" if "beta_reduce t = None"
    using that by (simp add: normalize_def normalize_loop.simps [of 0 t k])
  then show ?thesis by (simp add: is_normal_form_def)
qed

theorem normal_form_idempotent_witness:
  "is_normal_form (Abs ''x'' (App (Var ''x'') (Var ''y''))) \<and>
   beta_reduce (Abs ''x'' (App (Var ''x'') (Var ''y''))) = None \<and>
   normalize (Abs ''x'' (App (Var ''x'') (Var ''y''))) 1000 = Abs ''x'' (App (Var ''x'') (Var ''y''))"
proof -
  have nf: "is_normal_form (Abs ''x'' (App (Var ''x'') (Var ''y'')))"
    by (simp add: is_normal_form_def)
  with normal_form_idempotent [of "Abs ''x'' (App (Var ''x'') (Var ''y''))" 1000]
  show ?thesis by blast
qed

text \<open>
  C5. Church arithmetic, with the default bound of 1000 steps: the successor of 2
  normalizes to the numeral 3, 1 + 2 to the numeral 3, and 2 * 3 to the numeral 6, each
  as the very term \<open>church_numeral\<close> builds.
\<close>

theorem church_arithmetic:
  "normalize (App church_succ (church_numeral 2)) 1000 = church_numeral 3 \<and>
   normalize (App (App church_add (church_numeral 1)) (church_numeral 2)) 1000
     = church_numeral 3 \<and>
   normalize (App (App church_mult (church_numeral 2)) (church_numeral 3)) 1000
     = church_numeral 6"
proof -
  have s: "normalize (App church_succ (church_numeral 2)) 1000 = church_numeral 3"
    by code_simp
  have a: "normalize (App (App church_add (church_numeral 1)) (church_numeral 2)) 1000
      = church_numeral 3"
    by code_simp
  have m: "normalize (App (App church_mult (church_numeral 2)) (church_numeral 3)) 1000
      = church_numeral 6"
    by code_simp
  from s a m show ?thesis by simp
qed

text \<open>
  C6. Eta conversion tests the outermost shape only. \<open>eta_convert(t)\<close> returns \<open>f\<close>
  exactly when \<open>t\<close> is \<open>Abs x (App f (Var x))\<close> with \<open>x\<close> not free in \<open>f\<close>, and reports
  not-applicable for every other term: for \<open>Abs x (App (Var x) (Var x))\<close>, where \<open>x\<close> is
  free in the function position, and for a term that holds an eta-redex only below its
  root.
\<close>

theorem eta_convert_outermost:
  "(eta_convert t = Some f \<longleftrightarrow> (\<exists>x. t = Abs x (App f (Var x)) \<and> x |\<notin>| free_vars f)) \<and>
   (eta_convert t = None \<longleftrightarrow> \<not> (\<exists>x g. t = Abs x (App g (Var x)) \<and> x |\<notin>| free_vars g)) \<and>
   eta_convert (Abs x (App (Var x) (Var x))) = None \<and>
   eta_convert (Abs y (Abs x (App (Var ''f'') (Var ''x'')))) = None \<and>
   eta_convert (App (Abs ''x'' (App (Var ''f'') (Var ''x''))) u) = None"
  by (auto simp: eta_convert_def split: lterm.splits if_splits)

text \<open>
  C7. Alpha conversion keeps the free variables: when \<open>fresh\<close> is not a free variable of
  \<open>Abs x body\<close>, \<open>alpha_convert(Abs x body, fresh)\<close> returns an abstraction with the
  free variables of \<open>Abs x body\<close>.
\<close>

theorem alpha_convert_free_vars:
  assumes "fresh |\<notin>| free_vars (Abs x body)"
  shows "\<exists>t'. alpha_convert (Abs x body) fresh = Inr t' \<and>
           free_vars t' = free_vars (Abs x body)"
  using assms by (auto simp: free_vars_substitute)

theorem alpha_convert_free_vars_witness:
  "''z'' |\<notin>| free_vars (Abs ''x'' (App (Var ''x'') (Var ''y''))) \<and>
   (\<exists>t'. alpha_convert (Abs ''x'' (App (Var ''x'') (Var ''y''))) ''z'' = Inr t' \<and>
      free_vars t' = free_vars (Abs ''x'' (App (Var ''x'') (Var ''y''))))"
proof -
  have h: "''z'' |\<notin>| free_vars (Abs ''x'' (App (Var ''x'') (Var ''y'')))" by simp
  from alpha_convert_free_vars [OF h] h show ?thesis by blast
qed

text \<open>
  C8. \<open>alpha_convert\<close> on a term that is not an abstraction is rejected: the call
  raises (\<open>AttributeError\<close>) and returns no term.
\<close>

theorem alpha_convert_rejects_non_abstraction:
  assumes "\<forall>v body. t \<noteq> Abs v body"
  shows "alpha_convert t new_var = Inl AttributeError"
  using assms by (cases t) simp_all

theorem alpha_convert_rejects_non_abstraction_witness:
  "(\<forall>v body. App (Var ''f'') (Var ''x'') \<noteq> Abs v body) \<and>
   alpha_convert (App (Var ''f'') (Var ''x'')) ''y'' = Inl AttributeError"
proof -
  have h: "\<forall>v body. App (Var ''f'') (Var ''x'') \<noteq> Abs v body" by simp
  from alpha_convert_rejects_non_abstraction [OF h] h show ?thesis by blast
qed

text \<open>
  C9. \<open>normalize\<close> and \<open>reduction_steps\<close> agree: for a step bound \<open>k \<ge> 0\<close>,
  \<open>normalize(t, k)\<close> is the last element of \<open>reduction_steps(t, k)\<close>, which has between
  1 and \<open>k + 1\<close> entries and starts with \<open>t\<close>.
\<close>

theorem normalize_last_reduction_steps:
  assumes "0 \<le> k"
  shows "normalize t k = last (reduction_steps t k) \<and>
         1 \<le> length (reduction_steps t k) \<and>
         int (length (reduction_steps t k)) \<le> k + 1 \<and>
         hd (reduction_steps t k) = t"
proof -
  have "length (trace t (nat k)) \<noteq> 0"
    by (simp add: trace_nonempty)
  then have low: "1 \<le> length (trace t (nat k))" by linarith
  have "int (length (trace t (nat k))) \<le> int (Suc (nat k))"
    using length_trace [of t "nat k"] by linarith
  with assms have high: "int (length (trace t (nat k))) \<le> k + 1" by simp
  from low high show ?thesis
    by (simp add: reduction_steps_trace normalize_trace hd_trace)
qed

theorem normalize_last_reduction_steps_witness:
  "(0::int) \<le> 1 \<and>
   normalize (App (Abs ''x'' (Var ''x'')) (Var ''y'')) 1
     = last (reduction_steps (App (Abs ''x'' (Var ''x'')) (Var ''y'')) 1) \<and>
   int (length (reduction_steps (App (Abs ''x'' (Var ''x'')) (Var ''y'')) 1)) \<le> 1 + 1"
proof -
  have h: "(0::int) \<le> 1" by simp
  from normalize_last_reduction_steps [OF h, of "App (Abs ''x'' (Var ''x'')) (Var ''y'')"] h
  show ?thesis by blast
qed

text \<open>
  C10. Substitution introduces no free variable beyond those of the replacement:
  \<open>free_vars(substitute(t, x, r))\<close> is a subset of
  \<open>(free_vars(t) - {x}) \<union> free_vars(r)\<close>.
\<close>

theorem substitute_free_vars_subset:
  "free_vars (substitute t x r) |\<subseteq>| (free_vars t |-| {|x|}) |\<union>| free_vars r"
  by (auto simp: free_vars_substitute split: if_splits)

end
